theory Spec2Isabelle
  imports Main "HOL-Library.Word"
begin

section \<open>The 128-bit integers of serde.hpp\<close>

text \<open>
  \<^verbatim>\<open>struct uint128_t { uint64_t high; uint64_t low; }\<close> and
  \<^verbatim>\<open>struct int128_t { int64_t high; uint64_t low; }\<close>.  A 64-bit field is a
  \<open>64 word\<close>; the signed high half of \<open>int128_t\<close> is the same 64 bits read in two's
  complement, and comparing two of them with \<open>==\<close> compares the bits.
\<close>

record uint128_t =
  high :: "64 word"
  low :: "64 word"

record int128_t =
  high :: "64 word"
  low :: "64 word"

text \<open>
  \<^verbatim>\<open>bool operator==(const uint128_t &lhs, const uint128_t &rhs) {
    return lhs.high == rhs.high && lhs.low == lhs.low; }\<close>
  and the same body for \<open>int128_t\<close>.  The second conjunct is written as the source
  has it: both sides read \<open>lhs\<close>.
\<close>

definition operator_eq_uint128_t :: "uint128_t \<Rightarrow> uint128_t \<Rightarrow> bool" where
  "operator_eq_uint128_t lhs rhs =
     (uint128_t.high lhs = uint128_t.high rhs \<and> uint128_t.low lhs = uint128_t.low lhs)"

definition operator_eq_int128_t :: "int128_t \<Rightarrow> int128_t \<Rightarrow> bool" where
  "operator_eq_int128_t lhs rhs =
     (int128_t.high lhs = int128_t.high rhs \<and> int128_t.low lhs = int128_t.low lhs)"

section \<open>Types and values\<close>

text \<open>
  The traits \<open>Serializable<T>\<close> and \<open>Deserializable<T>\<close> are specialised for sixteen
  base types and seven type constructors.  \<open>ty\<close> names the C++ type a specialisation
  is chosen for, \<open>val\<close> is a value of such a type.  \<open>float\<close> and \<open>double\<close> are only
  handed to the serializer and taken from the deserializer, never computed with: they
  are carried as their bit patterns, and so are the signed integers (two's
  complement).  A length (\<open>size_t\<close>) and a variant index are natural numbers: the code
  only compares them.  A \<open>std::unique_ptr\<close> may own nothing, so its content is an
  option; a \<open>std::map\<close> is the list of its entries in iteration order; a
  \<open>std::variant\<close> is the index of the alternative it holds and that alternative.
\<close>

datatype ty =
    TStr | TUnit | TBool | TChar | TF32 | TF64
  | TU8 | TU16 | TU32 | TU64 | TU128
  | TI8 | TI16 | TI32 | TI64 | TI128
  | TBox ty
  | TOption ty
  | TVector ty
  | TArray ty nat
  | TMap ty ty
  | TTuple "ty list"
  | TVariant "ty list"

datatype val =
    VStr string | VUnit | VBool bool | VChar "32 word" | VF32 "32 word" | VF64 "64 word"
  | VU8 "8 word" | VU16 "16 word" | VU32 "32 word" | VU64 "64 word" | VU128 uint128_t
  | VI8 "8 word" | VI16 "16 word" | VI32 "32 word" | VI64 "64 word" | VI128 int128_t
  | VBox "val option"
  | VOption "val option"
  | VVector "val list"
  | VArray "val list"
  | VMap "(val \<times> val) list"
  | VTuple "val list"
  | VVariant nat val

section \<open>Failures\<close>

text \<open>
  What ends a call of \<open>serialize\<close> or \<open>deserialize\<close> without a result: the string
  literal thrown by the option decoder, the \<open>std::out_of_range\<close> of
  \<open>std::array::at\<close>, an exception of the serializer or deserializer object passing
  through, and the dereference of a \<open>unique_ptr\<close> that owns nothing, which the
  language leaves undefined.
\<close>

datatype 'e failure =
    Thrown string
  | Std_out_of_range
  | Propagated 'e
  | Null_dereference

section \<open>The serializer and deserializer objects\<close>

text \<open>
  \<open>Serializer\<close> and \<open>Deserializer\<close> are template parameters: any class with the
  member functions called below.  A member function takes the object's state and
  returns the new state, or the exception it throws.
\<close>

record ('e, 'w) serializer =
  serialize_str :: "string \<Rightarrow> 'w \<Rightarrow> 'e + 'w"
  serialize_unit :: "'w \<Rightarrow> 'e + 'w"
  serialize_bool :: "bool \<Rightarrow> 'w \<Rightarrow> 'e + 'w"
  serialize_char :: "32 word \<Rightarrow> 'w \<Rightarrow> 'e + 'w"
  serialize_f32 :: "32 word \<Rightarrow> 'w \<Rightarrow> 'e + 'w"
  serialize_f64 :: "64 word \<Rightarrow> 'w \<Rightarrow> 'e + 'w"
  serialize_u8 :: "8 word \<Rightarrow> 'w \<Rightarrow> 'e + 'w"
  serialize_u16 :: "16 word \<Rightarrow> 'w \<Rightarrow> 'e + 'w"
  serialize_u32 :: "32 word \<Rightarrow> 'w \<Rightarrow> 'e + 'w"
  serialize_u64 :: "64 word \<Rightarrow> 'w \<Rightarrow> 'e + 'w"
  serialize_u128 :: "uint128_t \<Rightarrow> 'w \<Rightarrow> 'e + 'w"
  serialize_i8 :: "8 word \<Rightarrow> 'w \<Rightarrow> 'e + 'w"
  serialize_i16 :: "16 word \<Rightarrow> 'w \<Rightarrow> 'e + 'w"
  serialize_i32 :: "32 word \<Rightarrow> 'w \<Rightarrow> 'e + 'w"
  serialize_i64 :: "64 word \<Rightarrow> 'w \<Rightarrow> 'e + 'w"
  serialize_i128 :: "int128_t \<Rightarrow> 'w \<Rightarrow> 'e + 'w"
  serialize_len :: "nat \<Rightarrow> 'w \<Rightarrow> 'e + 'w"
  serialize_variant_index :: "nat \<Rightarrow> 'w \<Rightarrow> 'e + 'w"

record ('e, 's) deserializer =
  deserialize_str :: "'s \<Rightarrow> 'e + string \<times> 's"
  deserialize_unit :: "'s \<Rightarrow> 'e + unit \<times> 's"
  deserialize_bool :: "'s \<Rightarrow> 'e + bool \<times> 's"
  deserialize_char :: "'s \<Rightarrow> 'e + 32 word \<times> 's"
  deserialize_f32 :: "'s \<Rightarrow> 'e + 32 word \<times> 's"
  deserialize_f64 :: "'s \<Rightarrow> 'e + 64 word \<times> 's"
  deserialize_u8 :: "'s \<Rightarrow> 'e + 8 word \<times> 's"
  deserialize_u16 :: "'s \<Rightarrow> 'e + 16 word \<times> 's"
  deserialize_u32 :: "'s \<Rightarrow> 'e + 32 word \<times> 's"
  deserialize_u64 :: "'s \<Rightarrow> 'e + 64 word \<times> 's"
  deserialize_u128 :: "'s \<Rightarrow> 'e + uint128_t \<times> 's"
  deserialize_i8 :: "'s \<Rightarrow> 'e + 8 word \<times> 's"
  deserialize_i16 :: "'s \<Rightarrow> 'e + 16 word \<times> 's"
  deserialize_i32 :: "'s \<Rightarrow> 'e + 32 word \<times> 's"
  deserialize_i64 :: "'s \<Rightarrow> 'e + 64 word \<times> 's"
  deserialize_i128 :: "'s \<Rightarrow> 'e + int128_t \<times> 's"
  deserialize_len :: "'s \<Rightarrow> 'e + nat \<times> 's"
  deserialize_variant_index :: "'s \<Rightarrow> 'e + nat \<times> 's"

section \<open>Statements in sequence\<close>

text \<open>
  A statement on the serializer is a function from its state to the new state or a
  failure; an expression on the deserializer also returns a value.  A failure ends
  the enclosing function: nothing in serde.hpp catches an exception.
\<close>

definition call_w :: "('w \<Rightarrow> 'e + 'w) \<Rightarrow> 'w \<Rightarrow> 'e failure + 'w" where
  "call_w m w = (case m w of Inl e \<Rightarrow> Inl (Propagated e) | Inr w' \<Rightarrow> Inr w')"

definition then_w ::
  "('w \<Rightarrow> 'f + 'w) \<Rightarrow> ('w \<Rightarrow> 'f + 'w) \<Rightarrow> 'w \<Rightarrow> 'f + 'w" where
  "then_w a b w = (case a w of Inl e \<Rightarrow> Inl e | Inr w' \<Rightarrow> b w')"

text \<open>\<^verbatim>\<open>for (const T &item : value) { body(item); }\<close>\<close>

primrec for_each :: "('a \<Rightarrow> 'w \<Rightarrow> 'f + 'w) \<Rightarrow> 'a list \<Rightarrow> 'w \<Rightarrow> 'f + 'w" where
  "for_each body [] w = Inr w"
| "for_each body (item # items) w =
     (case body item w of Inl e \<Rightarrow> Inl e | Inr w' \<Rightarrow> for_each body items w')"

definition call_r :: "('s \<Rightarrow> 'e + 'a \<times> 's) \<Rightarrow> 's \<Rightarrow> 'e failure + 'a \<times> 's" where
  "call_r m s = (case m s of Inl e \<Rightarrow> Inl (Propagated e) | Inr r \<Rightarrow> Inr r)"

definition return_r :: "'a \<Rightarrow> 's \<Rightarrow> 'f + 'a \<times> 's" where
  "return_r a s = Inr (a, s)"

definition throw_r :: "'f \<Rightarrow> 's \<Rightarrow> 'f + 'a \<times> 's" where
  "throw_r e s = Inl e"

definition bind_r ::
  "('s \<Rightarrow> 'f + 'a \<times> 's) \<Rightarrow> ('a \<Rightarrow> 's \<Rightarrow> 'f + 'b \<times> 's) \<Rightarrow> 's \<Rightarrow> 'f + 'b \<times> 's" where
  "bind_r m k s = (case m s of Inl e \<Rightarrow> Inl e | Inr (a, s') \<Rightarrow> k a s')"

lemma for_each_cong [fundef_cong]:
  "xs = ys \<Longrightarrow> (\<And>x. x \<in> set ys \<Longrightarrow> f x = g x) \<Longrightarrow> for_each f xs = for_each g ys"
proof -
  assume eq: "xs = ys" and same: "\<And>x. x \<in> set ys \<Longrightarrow> f x = g x"
  have "for_each f ys w = for_each g ys w" for w
    using same by (induction ys arbitrary: w) (auto split: sum.splits)
  with eq show ?thesis by auto
qed

section \<open>Serializable\<close>

text \<open>
  One equation for each specialisation of \<open>Serializable<T>::serialize\<close>, in the
  order of the source.  The base types call the member function of their name.
  \<^item> \<open>unique_ptr\<close>: \<^verbatim>\<open>Serializable<T>::serialize(*value, serializer)\<close>; the source
    comments the specialisation as "non-nullable" and does not test the pointer.
  \<^item> \<open>optional\<close>: \<^verbatim>\<open>serialize_u8(1)\<close> and the content, or \<^verbatim>\<open>serialize_u8(0)\<close>.
  \<^item> \<open>vector\<close> and \<open>map\<close>: \<^verbatim>\<open>serialize_len(value.size())\<close>, then the items (for a
    map \<open>item.first\<close> then \<open>item.second\<close>) in iteration order.
  \<^item> \<open>array\<close>: the items, no length.
  \<^item> \<open>tuple\<close>: the fold \<^verbatim>\<open>(Serializable<Types>::serialize(args, serializer), ...)\<close>
    over the comma operator, which evaluates its operands from left to right.
  \<^item> \<open>variant\<close>: \<^verbatim>\<open>serialize_variant_index(value.index())\<close>, then \<open>std::visit\<close>
    serializes the alternative held.
\<close>

fun serialize :: "('e, 'w) serializer \<Rightarrow> val \<Rightarrow> 'w \<Rightarrow> 'e failure + 'w" where
  "serialize S (VStr x) = call_w (serialize_str S x)"
| "serialize S VUnit = call_w (serialize_unit S)"
| "serialize S (VBool x) = call_w (serialize_bool S x)"
| "serialize S (VChar x) = call_w (serialize_char S x)"
| "serialize S (VF32 x) = call_w (serialize_f32 S x)"
| "serialize S (VF64 x) = call_w (serialize_f64 S x)"
| "serialize S (VU8 x) = call_w (serialize_u8 S x)"
| "serialize S (VU16 x) = call_w (serialize_u16 S x)"
| "serialize S (VU32 x) = call_w (serialize_u32 S x)"
| "serialize S (VU64 x) = call_w (serialize_u64 S x)"
| "serialize S (VU128 x) = call_w (serialize_u128 S x)"
| "serialize S (VI8 x) = call_w (serialize_i8 S x)"
| "serialize S (VI16 x) = call_w (serialize_i16 S x)"
| "serialize S (VI32 x) = call_w (serialize_i32 S x)"
| "serialize S (VI64 x) = call_w (serialize_i64 S x)"
| "serialize S (VI128 x) = call_w (serialize_i128 S x)"
| "serialize S (VBox None) = (\<lambda>w. Inl Null_dereference)"
| "serialize S (VBox (Some x)) = serialize S x"
| "serialize S (VOption (Some x)) = then_w (call_w (serialize_u8 S 1)) (serialize S x)"
| "serialize S (VOption None) = call_w (serialize_u8 S 0)"
| "serialize S (VVector xs) =
     then_w (call_w (serialize_len S (length xs))) (for_each (\<lambda>item. serialize S item) xs)"
| "serialize S (VArray xs) = for_each (\<lambda>item. serialize S item) xs"
| "serialize S (VMap es) =
     then_w (call_w (serialize_len S (length es)))
       (for_each (\<lambda>item. then_w (serialize S (fst item)) (serialize S (snd item))) es)"
| "serialize S (VTuple xs) = for_each (\<lambda>arg. serialize S arg) xs"
| "serialize S (VVariant i x) =
     then_w (call_w (serialize_variant_index S i)) (serialize S x)"

section \<open>Deserializable\<close>

subsection \<open>The containers' loops\<close>

text \<open>
  \<^verbatim>\<open>result.insert({key, value})\<close> on a \<open>std::map<K, V>\<close>: the map keeps its entries
  sorted by \<open>std::less<K>\<close>, here the parameter \<open>lt\<close>, and \<open>insert\<close> leaves the map as
  it is when it already holds an entry whose key is equivalent to the new one
  (neither is less than the other).
\<close>

fun map_insert ::
  "(val \<Rightarrow> val \<Rightarrow> bool) \<Rightarrow> val \<times> val \<Rightarrow> (val \<times> val) list \<Rightarrow> (val \<times> val) list" where
  "map_insert lt (k, v) [] = [(k, v)]"
| "map_insert lt (k, v) ((k', v') # es) =
     (if lt k k' then (k, v) # (k', v') # es
      else if lt k' k then (k', v') # map_insert lt (k, v) es
      else (k', v') # es)"

text \<open>
  \<^verbatim>\<open>for (size_t i = 0; i < len; i++) {
    result.push_back(Deserializable<T>::deserialize(deserializer)); }\<close>
\<close>

function vector_loop ::
  "('s \<Rightarrow> 'f + val \<times> 's) \<Rightarrow> nat \<Rightarrow> nat \<Rightarrow> val list \<Rightarrow> 's \<Rightarrow> 'f + val list \<times> 's" where
  "vector_loop item len i result s =
     (if i < len then
        (case item s of
           Inl e \<Rightarrow> Inl e
         | Inr (x, s') \<Rightarrow> vector_loop item len (Suc i) (result @ [x]) s')
      else Inr (result, s))"
  by pat_completeness auto
termination
  by (relation "measure (\<lambda>(item, len, i, result, s). len - i)") auto

declare vector_loop.simps [simp del]

text \<open>
  \<^verbatim>\<open>for (size_t i = 0; i < len; i++) {
    auto key = Deserializable<K>::deserialize(deserializer);
    auto value = Deserializable<V>::deserialize(deserializer);
    result.insert({key, value}); }\<close>
\<close>

function map_loop ::
  "(val \<Rightarrow> val \<Rightarrow> bool) \<Rightarrow> ('s \<Rightarrow> 'f + val \<times> 's) \<Rightarrow> ('s \<Rightarrow> 'f + val \<times> 's) \<Rightarrow>
   nat \<Rightarrow> nat \<Rightarrow> (val \<times> val) list \<Rightarrow> 's \<Rightarrow> 'f + (val \<times> val) list \<times> 's" where
  "map_loop lt key_of value_of len i result s =
     (if i < len then
        (case key_of s of
           Inl e \<Rightarrow> Inl e
         | Inr (key, s') \<Rightarrow>
             (case value_of s' of
                Inl e \<Rightarrow> Inl e
              | Inr (v, s'') \<Rightarrow>
                  map_loop lt key_of value_of len (Suc i) (map_insert lt (key, v) result) s''))
      else Inr (result, s))"
  by pat_completeness auto
termination
  by (relation "measure (\<lambda>(lt, key_of, value_of, len, i, result, s). len - i)") auto

declare map_loop.simps [simp del]

text \<open>
  \<^verbatim>\<open>for (T &item : result) { item = Deserializable<T>::deserialize(deserializer); }\<close>
  over the \<open>N\<close> items of a \<open>std::array<T, N>\<close>: every item is assigned before the array
  is returned, so the array returned is the list of the \<open>N\<close> values read.
\<close>

fun array_loop :: "('s \<Rightarrow> 'f + val \<times> 's) \<Rightarrow> nat \<Rightarrow> 's \<Rightarrow> 'f + val list \<times> 's" where
  "array_loop item 0 = return_r []"
| "array_loop item (Suc n) =
     bind_r item (\<lambda>x. bind_r (array_loop item n) (\<lambda>xs. return_r (x # xs)))"

subsection \<open>The arguments of a function call\<close>

text \<open>
  The tuple decoder is
  \<^verbatim>\<open>return std::make_tuple(Deserializable<Types>::deserialize(deserializer)...);\<close>
  Every component is an argument of one call of \<open>std::make_tuple\<close>.  C++ evaluates the
  arguments of a function call one after the other but leaves their order to the
  compiler; the two orders in use are the declared one and its reverse.  Whatever the
  order, argument \<open>i\<close> becomes component \<open>i\<close>.
\<close>

datatype argument_order = Left_to_right | Right_to_left

fun in_sequence :: "('s \<Rightarrow> 'f + 'a \<times> 's) list \<Rightarrow> 's \<Rightarrow> 'f + 'a list \<times> 's" where
  "in_sequence [] = return_r []"
| "in_sequence (d # ds) = bind_r d (\<lambda>x. bind_r (in_sequence ds) (\<lambda>xs. return_r (x # xs)))"

definition evaluate_arguments ::
  "argument_order \<Rightarrow> ('s \<Rightarrow> 'f + 'a \<times> 's) list \<Rightarrow> 's \<Rightarrow> 'f + 'a list \<times> 's" where
  "evaluate_arguments order args =
     (case order of
        Left_to_right \<Rightarrow> in_sequence args
      | Right_to_left \<Rightarrow> bind_r (in_sequence (rev args)) (\<lambda>xs. return_r (rev xs)))"

subsection \<open>The cases of a variant\<close>

text \<open>
  \<^verbatim>\<open>auto f = [](Deserializer &de) {
    return std::variant<Types...>(Deserializable<T>::deserialize(de)); };\<close>
  The constructor of \<open>std::variant\<close> called here takes a value of type \<open>T\<close> and selects
  the alternative by overload resolution over \<open>Types\<close>: the alternative whose type is
  \<open>T\<close>.  It compiles only if that alternative is unique, that is for pairwise
  distinct \<open>Types\<close>; \<open>alternative_of\<close> is the position of \<open>T\<close> in \<open>Types\<close>.
\<close>

fun alternative_of :: "ty \<Rightarrow> ty list \<Rightarrow> nat" where
  "alternative_of T [] = 0"
| "alternative_of T (U # Us) = (if T = U then 0 else Suc (alternative_of T Us))"

definition make_case ::
  "ty list \<Rightarrow> ty \<Rightarrow> ('s \<Rightarrow> 'f + val \<times> 's) \<Rightarrow> 's \<Rightarrow> 'f + val \<times> 's" where
  "make_case Types T deserialize_T =
     bind_r deserialize_T (\<lambda>x. return_r (VVariant (alternative_of T Types) x))"

text \<open>\<open>std::array::at\<close>: the element, or \<open>std::out_of_range\<close> (here \<open>None\<close>).\<close>

definition array_at :: "'a list \<Rightarrow> nat \<Rightarrow> 'a option" where
  "array_at xs n = (if n < length xs then Some (xs ! n) else None)"

subsection \<open>deserialize\<close>

text \<open>
  One equation for each specialisation of \<open>Deserializable<T>::deserialize\<close>.  \<open>ao\<close> is
  the compiler's order of argument evaluation and \<open>lt\<close> the order of map keys.
  \<^item> \<open>optional\<close>: \<^verbatim>\<open>auto tag = deserializer.deserialize_u8();
    if (tag == 0) { return {}; } else { if (tag != 1) { throw "invalid option tag"; }
    return {Deserializable<T>::deserialize(deserializer)}; }\<close>
  \<^item> \<open>variant\<close>: \<^verbatim>\<open>static const std::array<Case, sizeof...(Types)> cases =
    {make_case(std::common_type<Types>{})...};
    auto index = deserializer.deserialize_variant_index();
    return cases.at(index)(deserializer);\<close>
\<close>

fun deserialize ::
  "argument_order \<Rightarrow> (val \<Rightarrow> val \<Rightarrow> bool) \<Rightarrow> ('e, 's) deserializer \<Rightarrow> ty \<Rightarrow>
   's \<Rightarrow> 'e failure + val \<times> 's" where
  "deserialize ao lt D TStr = bind_r (call_r (deserialize_str D)) (\<lambda>x. return_r (VStr x))"
| "deserialize ao lt D TUnit = bind_r (call_r (deserialize_unit D)) (\<lambda>_. return_r VUnit)"
| "deserialize ao lt D TBool = bind_r (call_r (deserialize_bool D)) (\<lambda>x. return_r (VBool x))"
| "deserialize ao lt D TChar = bind_r (call_r (deserialize_char D)) (\<lambda>x. return_r (VChar x))"
| "deserialize ao lt D TF32 = bind_r (call_r (deserialize_f32 D)) (\<lambda>x. return_r (VF32 x))"
| "deserialize ao lt D TF64 = bind_r (call_r (deserialize_f64 D)) (\<lambda>x. return_r (VF64 x))"
| "deserialize ao lt D TU8 = bind_r (call_r (deserialize_u8 D)) (\<lambda>x. return_r (VU8 x))"
| "deserialize ao lt D TU16 = bind_r (call_r (deserialize_u16 D)) (\<lambda>x. return_r (VU16 x))"
| "deserialize ao lt D TU32 = bind_r (call_r (deserialize_u32 D)) (\<lambda>x. return_r (VU32 x))"
| "deserialize ao lt D TU64 = bind_r (call_r (deserialize_u64 D)) (\<lambda>x. return_r (VU64 x))"
| "deserialize ao lt D TU128 = bind_r (call_r (deserialize_u128 D)) (\<lambda>x. return_r (VU128 x))"
| "deserialize ao lt D TI8 = bind_r (call_r (deserialize_i8 D)) (\<lambda>x. return_r (VI8 x))"
| "deserialize ao lt D TI16 = bind_r (call_r (deserialize_i16 D)) (\<lambda>x. return_r (VI16 x))"
| "deserialize ao lt D TI32 = bind_r (call_r (deserialize_i32 D)) (\<lambda>x. return_r (VI32 x))"
| "deserialize ao lt D TI64 = bind_r (call_r (deserialize_i64 D)) (\<lambda>x. return_r (VI64 x))"
| "deserialize ao lt D TI128 = bind_r (call_r (deserialize_i128 D)) (\<lambda>x. return_r (VI128 x))"
| "deserialize ao lt D (TBox T) =
     bind_r (deserialize ao lt D T) (\<lambda>x. return_r (VBox (Some x)))"
| "deserialize ao lt D (TOption T) =
     bind_r (call_r (deserialize_u8 D)) (\<lambda>tag.
       if tag = 0 then return_r (VOption None)
       else if tag \<noteq> 1 then throw_r (Thrown ''invalid option tag'')
       else bind_r (deserialize ao lt D T) (\<lambda>x. return_r (VOption (Some x))))"
| "deserialize ao lt D (TVector T) =
     bind_r (call_r (deserialize_len D)) (\<lambda>len.
       bind_r (vector_loop (deserialize ao lt D T) len 0 []) (\<lambda>result.
         return_r (VVector result)))"
| "deserialize ao lt D (TMap K V) =
     bind_r (call_r (deserialize_len D)) (\<lambda>len.
       bind_r (map_loop lt (deserialize ao lt D K) (deserialize ao lt D V) len 0 [])
         (\<lambda>result. return_r (VMap result)))"
| "deserialize ao lt D (TArray T N) =
     bind_r (array_loop (deserialize ao lt D T) N) (\<lambda>result. return_r (VArray result))"
| "deserialize ao lt D (TTuple Types) =
     bind_r (evaluate_arguments ao (map (\<lambda>T. deserialize ao lt D T) Types))
       (\<lambda>xs. return_r (VTuple xs))"
| "deserialize ao lt D (TVariant Types) =
     bind_r (call_r (deserialize_variant_index D)) (\<lambda>index.
       case array_at (map (\<lambda>T. make_case Types T (deserialize ao lt D T)) Types) index of
         None \<Rightarrow> throw_r Std_out_of_range
       | Some c \<Rightarrow> c)"

section \<open>A serializer that records and a deserializer that replays\<close>

text \<open>
  Modelled from the spec: the paired Writer and Reader of the round-trip law, "a
  fixed concrete Writer/Reader pair" whose read operations return what the matching
  write operations recorded.  The formats of the repository are not part of
  serde.hpp.  The recording serializer appends each call to a list; the replaying
  deserializer takes the next call off the list and fails when it is not the one
  asked for.
\<close>

datatype call =
    W_str string | W_unit | W_bool bool | W_char "32 word" | W_f32 "32 word" | W_f64 "64 word"
  | W_u8 "8 word" | W_u16 "16 word" | W_u32 "32 word" | W_u64 "64 word" | W_u128 uint128_t
  | W_i8 "8 word" | W_i16 "16 word" | W_i32 "32 word" | W_i64 "64 word" | W_i128 int128_t
  | W_len nat | W_variant_index nat

definition recorder :: "(unit, call list) serializer" where
  "recorder =
     \<lparr> serialize_str = (\<lambda>x w. Inr (w @ [W_str x])),
       serialize_unit = (\<lambda>w. Inr (w @ [W_unit])),
       serialize_bool = (\<lambda>x w. Inr (w @ [W_bool x])),
       serialize_char = (\<lambda>x w. Inr (w @ [W_char x])),
       serialize_f32 = (\<lambda>x w. Inr (w @ [W_f32 x])),
       serialize_f64 = (\<lambda>x w. Inr (w @ [W_f64 x])),
       serialize_u8 = (\<lambda>x w. Inr (w @ [W_u8 x])),
       serialize_u16 = (\<lambda>x w. Inr (w @ [W_u16 x])),
       serialize_u32 = (\<lambda>x w. Inr (w @ [W_u32 x])),
       serialize_u64 = (\<lambda>x w. Inr (w @ [W_u64 x])),
       serialize_u128 = (\<lambda>x w. Inr (w @ [W_u128 x])),
       serialize_i8 = (\<lambda>x w. Inr (w @ [W_i8 x])),
       serialize_i16 = (\<lambda>x w. Inr (w @ [W_i16 x])),
       serialize_i32 = (\<lambda>x w. Inr (w @ [W_i32 x])),
       serialize_i64 = (\<lambda>x w. Inr (w @ [W_i64 x])),
       serialize_i128 = (\<lambda>x w. Inr (w @ [W_i128 x])),
       serialize_len = (\<lambda>x w. Inr (w @ [W_len x])),
       serialize_variant_index = (\<lambda>x w. Inr (w @ [W_variant_index x])) \<rparr>"

datatype mismatch = Mismatch

definition replayer :: "(mismatch, call list) deserializer" where
  "replayer =
     \<lparr> deserialize_str = (\<lambda>s. case s of W_str x # r \<Rightarrow> Inr (x, r) | _ \<Rightarrow> Inl Mismatch),
       deserialize_unit = (\<lambda>s. case s of W_unit # r \<Rightarrow> Inr ((), r) | _ \<Rightarrow> Inl Mismatch),
       deserialize_bool = (\<lambda>s. case s of W_bool x # r \<Rightarrow> Inr (x, r) | _ \<Rightarrow> Inl Mismatch),
       deserialize_char = (\<lambda>s. case s of W_char x # r \<Rightarrow> Inr (x, r) | _ \<Rightarrow> Inl Mismatch),
       deserialize_f32 = (\<lambda>s. case s of W_f32 x # r \<Rightarrow> Inr (x, r) | _ \<Rightarrow> Inl Mismatch),
       deserialize_f64 = (\<lambda>s. case s of W_f64 x # r \<Rightarrow> Inr (x, r) | _ \<Rightarrow> Inl Mismatch),
       deserialize_u8 = (\<lambda>s. case s of W_u8 x # r \<Rightarrow> Inr (x, r) | _ \<Rightarrow> Inl Mismatch),
       deserialize_u16 = (\<lambda>s. case s of W_u16 x # r \<Rightarrow> Inr (x, r) | _ \<Rightarrow> Inl Mismatch),
       deserialize_u32 = (\<lambda>s. case s of W_u32 x # r \<Rightarrow> Inr (x, r) | _ \<Rightarrow> Inl Mismatch),
       deserialize_u64 = (\<lambda>s. case s of W_u64 x # r \<Rightarrow> Inr (x, r) | _ \<Rightarrow> Inl Mismatch),
       deserialize_u128 = (\<lambda>s. case s of W_u128 x # r \<Rightarrow> Inr (x, r) | _ \<Rightarrow> Inl Mismatch),
       deserialize_i8 = (\<lambda>s. case s of W_i8 x # r \<Rightarrow> Inr (x, r) | _ \<Rightarrow> Inl Mismatch),
       deserialize_i16 = (\<lambda>s. case s of W_i16 x # r \<Rightarrow> Inr (x, r) | _ \<Rightarrow> Inl Mismatch),
       deserialize_i32 = (\<lambda>s. case s of W_i32 x # r \<Rightarrow> Inr (x, r) | _ \<Rightarrow> Inl Mismatch),
       deserialize_i64 = (\<lambda>s. case s of W_i64 x # r \<Rightarrow> Inr (x, r) | _ \<Rightarrow> Inl Mismatch),
       deserialize_i128 = (\<lambda>s. case s of W_i128 x # r \<Rightarrow> Inr (x, r) | _ \<Rightarrow> Inl Mismatch),
       deserialize_len = (\<lambda>s. case s of W_len x # r \<Rightarrow> Inr (x, r) | _ \<Rightarrow> Inl Mismatch),
       deserialize_variant_index =
         (\<lambda>s. case s of W_variant_index x # r \<Rightarrow> Inr (x, r) | _ \<Rightarrow> Inl Mismatch) \<rparr>"

text \<open>
  A recorded call made again on any serializer, and a list of calls made one after
  the other, stopping at the first that fails.
\<close>

fun perform :: "('e, 'w) serializer \<Rightarrow> call \<Rightarrow> 'w \<Rightarrow> 'e + 'w" where
  "perform S (W_str x) = serialize_str S x"
| "perform S W_unit = serialize_unit S"
| "perform S (W_bool x) = serialize_bool S x"
| "perform S (W_char x) = serialize_char S x"
| "perform S (W_f32 x) = serialize_f32 S x"
| "perform S (W_f64 x) = serialize_f64 S x"
| "perform S (W_u8 x) = serialize_u8 S x"
| "perform S (W_u16 x) = serialize_u16 S x"
| "perform S (W_u32 x) = serialize_u32 S x"
| "perform S (W_u64 x) = serialize_u64 S x"
| "perform S (W_u128 x) = serialize_u128 S x"
| "perform S (W_i8 x) = serialize_i8 S x"
| "perform S (W_i16 x) = serialize_i16 S x"
| "perform S (W_i32 x) = serialize_i32 S x"
| "perform S (W_i64 x) = serialize_i64 S x"
| "perform S (W_i128 x) = serialize_i128 S x"
| "perform S (W_len x) = serialize_len S x"
| "perform S (W_variant_index x) = serialize_variant_index S x"

definition perform_all :: "('e, 'w) serializer \<Rightarrow> call list \<Rightarrow> 'w \<Rightarrow> 'e failure + 'w" where
  "perform_all S cs = for_each (\<lambda>c. call_w (perform S c)) cs"

text \<open>\<open>std::less<uint8_t>\<close>, the order of the keys of a \<open>std::map<uint8_t, V>\<close>.\<close>

fun less_u8 :: "val \<Rightarrow> val \<Rightarrow> bool" where
  "less_u8 (VU8 a) (VU8 b) = (a < b)"
| "less_u8 _ _ = False"

section \<open>Well-formed values\<close>

text \<open>
  A value in which every \<open>unique_ptr\<close> owns an object: what the source's comment
  "Unique pointers (non-nullable)" asks of the values given to \<open>serialize\<close>.
\<close>

fun non_null :: "val \<Rightarrow> bool" where
  "non_null (VBox None) = False"
| "non_null (VBox (Some x)) = non_null x"
| "non_null (VOption None) = True"
| "non_null (VOption (Some x)) = non_null x"
| "non_null (VVector xs) = list_all (\<lambda>x. non_null x) xs"
| "non_null (VArray xs) = list_all (\<lambda>x. non_null x) xs"
| "non_null (VMap es) = list_all (\<lambda>e. non_null (fst e) \<and> non_null (snd e)) es"
| "non_null (VTuple xs) = list_all (\<lambda>x. non_null x) xs"
| "non_null (VVariant i x) = non_null x"
| "non_null _ = True"

text \<open>
  A value of a type.  The array has its \<open>N\<close> items; the entries of a map are in
  the strict order of their keys; a variant holds one of its alternatives, and the
  alternatives' types are pairwise distinct (see \<open>make_case\<close>).
\<close>

fun has_type :: "(val \<Rightarrow> val \<Rightarrow> bool) \<Rightarrow> val \<Rightarrow> ty \<Rightarrow> bool" where
  "has_type lt (VStr x) T = (T = TStr)"
| "has_type lt VUnit T = (T = TUnit)"
| "has_type lt (VBool x) T = (T = TBool)"
| "has_type lt (VChar x) T = (T = TChar)"
| "has_type lt (VF32 x) T = (T = TF32)"
| "has_type lt (VF64 x) T = (T = TF64)"
| "has_type lt (VU8 x) T = (T = TU8)"
| "has_type lt (VU16 x) T = (T = TU16)"
| "has_type lt (VU32 x) T = (T = TU32)"
| "has_type lt (VU64 x) T = (T = TU64)"
| "has_type lt (VU128 x) T = (T = TU128)"
| "has_type lt (VI8 x) T = (T = TI8)"
| "has_type lt (VI16 x) T = (T = TI16)"
| "has_type lt (VI32 x) T = (T = TI32)"
| "has_type lt (VI64 x) T = (T = TI64)"
| "has_type lt (VI128 x) T = (T = TI128)"
| "has_type lt (VBox None) T = False"
| "has_type lt (VBox (Some x)) T = (case T of TBox U \<Rightarrow> has_type lt x U | _ \<Rightarrow> False)"
| "has_type lt (VOption None) T = (case T of TOption U \<Rightarrow> True | _ \<Rightarrow> False)"
| "has_type lt (VOption (Some x)) T = (case T of TOption U \<Rightarrow> has_type lt x U | _ \<Rightarrow> False)"
| "has_type lt (VVector xs) T =
     (case T of TVector U \<Rightarrow> list_all (\<lambda>x. has_type lt x U) xs | _ \<Rightarrow> False)"
| "has_type lt (VArray xs) T =
     (case T of
        TArray U N \<Rightarrow> length xs = N \<and> list_all (\<lambda>x. has_type lt x U) xs
      | _ \<Rightarrow> False)"
| "has_type lt (VMap es) T =
     (case T of
        TMap K V \<Rightarrow>
          list_all (\<lambda>e. has_type lt (fst e) K \<and> has_type lt (snd e) V) es
          \<and> sorted_wrt (\<lambda>a b. lt a b \<and> \<not> lt b a) (map fst es)
      | _ \<Rightarrow> False)"
| "has_type lt (VTuple xs) T =
     (case T of TTuple Types \<Rightarrow> list_all2 (\<lambda>x U. has_type lt x U) xs Types | _ \<Rightarrow> False)"
| "has_type lt (VVariant i x) T =
     (case T of
        TVariant Types \<Rightarrow> i < length Types \<and> distinct Types \<and> has_type lt x (Types ! i)
      | _ \<Rightarrow> False)"

section \<open>The call sequence of the spec\<close>

text \<open>
  Section 4.2 of the spec, written from its words, to compare \<open>serialize\<close> with: a
  leaf is one call of the matching operation; an option is the discriminant 1 and the
  inner value, or the discriminant 0; a sequence and a map are \<open>write_len(count)\<close> and
  the elements (key then value) in iteration order; an array and a tuple are their
  elements in declared order; a sum is \<open>write_variant_index(i)\<close> and the payload; an
  owned indirection is the value it holds.
\<close>

fun spec_calls :: "val \<Rightarrow> call list" where
  "spec_calls (VStr x) = [W_str x]"
| "spec_calls VUnit = [W_unit]"
| "spec_calls (VBool x) = [W_bool x]"
| "spec_calls (VChar x) = [W_char x]"
| "spec_calls (VF32 x) = [W_f32 x]"
| "spec_calls (VF64 x) = [W_f64 x]"
| "spec_calls (VU8 x) = [W_u8 x]"
| "spec_calls (VU16 x) = [W_u16 x]"
| "spec_calls (VU32 x) = [W_u32 x]"
| "spec_calls (VU64 x) = [W_u64 x]"
| "spec_calls (VU128 x) = [W_u128 x]"
| "spec_calls (VI8 x) = [W_i8 x]"
| "spec_calls (VI16 x) = [W_i16 x]"
| "spec_calls (VI32 x) = [W_i32 x]"
| "spec_calls (VI64 x) = [W_i64 x]"
| "spec_calls (VI128 x) = [W_i128 x]"
| "spec_calls (VBox None) = []"
| "spec_calls (VBox (Some x)) = spec_calls x"
| "spec_calls (VOption None) = [W_u8 0]"
| "spec_calls (VOption (Some x)) = W_u8 1 # spec_calls x"
| "spec_calls (VVector xs) = W_len (length xs) # concat (map (\<lambda>x. spec_calls x) xs)"
| "spec_calls (VArray xs) = concat (map (\<lambda>x. spec_calls x) xs)"
| "spec_calls (VMap es) =
     W_len (length es) # concat (map (\<lambda>e. spec_calls (fst e) @ spec_calls (snd e)) es)"
| "spec_calls (VTuple xs) = concat (map (\<lambda>x. spec_calls x) xs)"
| "spec_calls (VVariant i x) = W_variant_index i # spec_calls x"

section \<open>The entries of a map in the input\<close>

text \<open>
  The \<open>n\<close> entries the deserializer holds next, key then value, in the order they are
  read, duplicates included.
\<close>

fun read_entries ::
  "('s \<Rightarrow> 'f + val \<times> 's) \<Rightarrow> ('s \<Rightarrow> 'f + val \<times> 's) \<Rightarrow> nat \<Rightarrow> 's \<Rightarrow> 'f + (val \<times> val) list \<times> 's" where
  "read_entries key_of value_of 0 = return_r []"
| "read_entries key_of value_of (Suc n) =
     bind_r key_of (\<lambda>k. bind_r value_of (\<lambda>v.
       bind_r (read_entries key_of value_of n) (\<lambda>es. return_r ((k, v) # es))))"

text \<open>
  Two keys are equivalent for \<open>std::map\<close> when neither is less than the other.  The
  order of a map's keys is to be a strict weak order (the requirement \<open>Compare\<close>).
  For the keys of most types equivalent keys are equal; \<open>equivalent_keys_equal\<close> says
  so of a set of keys.
\<close>

definition equivalent :: "(val \<Rightarrow> val \<Rightarrow> bool) \<Rightarrow> val \<Rightarrow> val \<Rightarrow> bool" where
  "equivalent lt a b = (\<not> lt a b \<and> \<not> lt b a)"

definition strict_weak_order_on :: "val set \<Rightarrow> (val \<Rightarrow> val \<Rightarrow> bool) \<Rightarrow> bool" where
  "strict_weak_order_on A lt =
     ((\<forall>a\<in>A. \<not> lt a a)
      \<and> (\<forall>a\<in>A. \<forall>b\<in>A. \<forall>c\<in>A. lt a b \<longrightarrow> lt b c \<longrightarrow> lt a c)
      \<and> (\<forall>a\<in>A. \<forall>b\<in>A. \<forall>c\<in>A. equivalent lt a b \<longrightarrow> equivalent lt b c \<longrightarrow> equivalent lt a c))"

definition equivalent_keys_equal :: "val set \<Rightarrow> (val \<Rightarrow> val \<Rightarrow> bool) \<Rightarrow> bool" where
  "equivalent_keys_equal A lt = (\<forall>a\<in>A. \<forall>b\<in>A. equivalent lt a b \<longrightarrow> a = b)"

text \<open>
  The entries of \<open>es\<close> that are the first with their key: those whose key is
  equivalent neither to a key of \<open>seen\<close> nor to the key of an earlier entry of \<open>es\<close>.
\<close>

fun first_entries ::
  "(val \<Rightarrow> val \<Rightarrow> bool) \<Rightarrow> val list \<Rightarrow> (val \<times> val) list \<Rightarrow> (val \<times> val) list" where
  "first_entries lt seen [] = []"
| "first_entries lt seen (e # es) =
     (if \<exists>k\<in>set seen. equivalent lt k (fst e) then first_entries lt seen es
      else e # first_entries lt (fst e # seen) es)"

section \<open>Equality of the 128-bit integers\<close>

lemma operator_eq_uint128_t_high:
  "operator_eq_uint128_t lhs rhs \<longleftrightarrow> uint128_t.high lhs = uint128_t.high rhs"
  by (simp add: operator_eq_uint128_t_def)

lemma operator_eq_int128_t_high:
  "operator_eq_int128_t lhs rhs \<longleftrightarrow> int128_t.high lhs = int128_t.high rhs"
  by (simp add: operator_eq_int128_t_def)

text \<open>
  C1.  The spec: \<open>operator==\<close> on \<open>uint128_t\<close> and on \<open>int128_t\<close> is true exactly when
  both halves are equal.  The code compares \<open>lhs.low\<close> with itself, so the low halves
  are never compared: 0 and 1, equal in the high half and different in the low one,
  are equal for \<open>operator==\<close>.
\<close>

theorem operator_eq_ignores_low:
  "operator_eq_uint128_t \<lparr>uint128_t.high = 0, low = 0\<rparr> \<lparr>uint128_t.high = 0, low = 1\<rparr>
   \<and> uint128_t.low \<lparr>uint128_t.high = 0, low = 0\<rparr> \<noteq> uint128_t.low \<lparr>uint128_t.high = 0, low = 1\<rparr>
   \<and> operator_eq_int128_t \<lparr>int128_t.high = 0, low = 0\<rparr> \<lparr>int128_t.high = 0, low = 1\<rparr>
   \<and> int128_t.low \<lparr>int128_t.high = 0, low = 0\<rparr> \<noteq> int128_t.low \<lparr>int128_t.high = 0, low = 1\<rparr>"
  by (simp add: operator_eq_uint128_t_def operator_eq_int128_t_def)

section \<open>serialize makes the calls of the spec\<close>

lemma perform_all_Nil [simp]: "perform_all S [] w = Inr w"
  by (simp add: perform_all_def)

lemma perform_all_Cons [simp]:
  "perform_all S (c # cs) w =
     (case perform S c w of Inl e \<Rightarrow> Inl (Propagated e) | Inr w' \<Rightarrow> perform_all S cs w')"
  by (simp add: perform_all_def call_w_def split: sum.splits)

lemma perform_all_append:
  "perform_all S (xs @ ys) w =
     (case perform_all S xs w of Inl e \<Rightarrow> Inl e | Inr w' \<Rightarrow> perform_all S ys w')"
  by (induction xs arbitrary: w) (auto split: sum.splits)

lemma for_each_perform:
  "(\<And>x w. x \<in> set xs \<Longrightarrow> f x w = perform_all S (g x) w)
   \<Longrightarrow> for_each f xs w = perform_all S (concat (map g xs)) w"
  by (induction xs arbitrary: w) (auto simp: perform_all_append split: sum.splits)

lemma serialize_performs:
  "non_null v \<Longrightarrow> serialize S v w = perform_all S (spec_calls v) w"
proof (induction S v arbitrary: w rule: serialize.induct)
  case (21 S xs)
  then have "for_each (serialize S) xs w' = perform_all S (concat (map spec_calls xs)) w'" for w'
    by (intro for_each_perform) (auto simp: list_all_iff)
  then show ?case
    by (simp add: then_w_def call_w_def split: sum.splits)
next
  case (22 S xs)
  then show ?case
    by (simp add: list_all_iff for_each_perform)
next
  case (23 S es)
  have "for_each (\<lambda>item. then_w (serialize S (fst item)) (serialize S (snd item))) es w'
        = perform_all S (concat (map (\<lambda>e. spec_calls (fst e) @ spec_calls (snd e)) es)) w'" for w'
  proof (rule for_each_perform)
    fix x w'' assume "x \<in> set es"
    with 23 show "then_w (serialize S (fst x)) (serialize S (snd x)) w''
                  = perform_all S (spec_calls (fst x) @ spec_calls (snd x)) w''"
      by (simp add: list_all_iff then_w_def perform_all_append split: sum.splits)
  qed
  then show ?case
    by (simp add: then_w_def call_w_def split: sum.splits)
next
  case (24 S xs)
  then show ?case
    by (simp add: list_all_iff for_each_perform)
qed (simp_all add: then_w_def call_w_def split: sum.splits)

lemma has_type_non_null: "has_type lt v T \<Longrightarrow> non_null v"
proof (induction v arbitrary: T)
  case (VBox p)
  then show ?case
    by (cases p; cases T) auto
next
  case (VOption p)
  then show ?case
    by (cases p; cases T) auto
next
  case (VVector xs)
  then show ?case
    by (cases T) (auto simp: list_all_iff)
next
  case (VArray xs)
  then show ?case
    by (cases T) (auto simp: list_all_iff)
next
  case (VMap es)
  then show ?case
    by (cases T) (fastforce simp: list_all_iff)+
next
  case (VTuple xs)
  then obtain Types where "list_all2 (has_type lt) xs Types"
    by (cases T) auto
  then have "\<forall>x\<in>set xs. \<exists>U. has_type lt x U"
    by (fastforce simp: list_all2_conv_all_nth in_set_conv_nth)
  with VTuple.IH show ?case
    by (auto simp: list_all_iff)
next
  case (VVariant i x)
  then show ?case
    by (cases T) auto
qed simp_all

lemma perform_all_failure:
  "perform_all S cs w = Inl e \<Longrightarrow> \<exists>x. e = Propagated x"
  by (induction cs arbitrary: w) (auto split: sum.splits)

lemma perform_all_total:
  "(\<And>c w'. \<exists>w''. perform S c w' = Inr w'') \<Longrightarrow> \<exists>w'. perform_all S cs w = Inr w'"
proof (induction cs arbitrary: w)
  case Nil
  then show ?case by simp
next
  case (Cons c cs)
  from Cons.prems obtain w1 where "perform S c w = Inr w1" by blast
  moreover from Cons obtain w2 where "perform_all S cs w1 = Inr w2" by blast
  ultimately show ?case by simp
qed

lemma perform_all_recorder: "perform_all recorder cs w = Inr (w @ cs)"
proof (induction cs arbitrary: w)
  case Nil
  then show ?case by simp
next
  case (Cons c cs)
  have step: "perform recorder c w = Inr (w @ [c])"
    by (cases c) (simp_all add: recorder_def)
  show ?case by (simp add: step Cons.IH)
qed

text \<open>
  C8.  Serialization is total.  For every value in which each \<open>unique_ptr\<close> owns an
  object (by \<open>has_type_non_null\<close> every value of a type is one), and every serializer \<open>S\<close> in every state: \<open>serialize\<close> makes exactly the calls
  \<open>spec_calls v\<close>, a list that depends on the value alone, one after the other until
  one of them fails; a failure of \<open>serialize\<close> is a failure of a call of \<open>S\<close>, passed
  on as it is; and if no call of \<open>S\<close> can fail, \<open>serialize\<close> returns.
\<close>

theorem serialization_total:
  "non_null v \<Longrightarrow>
     serialize S v w = perform_all S (spec_calls v) w
     \<and> (\<forall>e. serialize S v w = Inl e \<longrightarrow> (\<exists>x. e = Propagated x))
     \<and> ((\<forall>c w'. \<exists>w''. perform S c w' = Inr w'') \<longrightarrow> (\<exists>w'. serialize S v w = Inr w'))"
  using perform_all_failure [of S "spec_calls v" w] perform_all_total [of S "spec_calls v" w]
  by (simp add: serialize_performs)

theorem serialization_total_witness:
  "non_null (VVector [VOption (Some (VU8 1)), VOption None])
   \<and> serialize recorder (VVector [VOption (Some (VU8 1)), VOption None]) []
       = Inr [W_len 2, W_u8 1, W_u8 1, W_u8 0]
   \<and> (\<forall>c w'. \<exists>w''. perform recorder c w' = Inr w'')"
proof -
  have total: "\<forall>c w'. \<exists>w''. perform recorder c w' = Inr w''"
  proof (intro allI)
    fix c w'
    show "\<exists>w''. perform recorder c w' = Inr w''"
      by (cases c) (simp_all add: recorder_def)
  qed
  have "non_null (VVector [VOption (Some (VU8 1)), VOption None])"
    by simp
  from serialization_total [OF this, of recorder "[]"] total show ?thesis
    by (simp add: perform_all_recorder recorder_def call_w_def then_w_def)
qed

text \<open>
  C10.  \<open>serialize\<close> on a \<open>unique_ptr\<close> dereferences it without a test: on a pointer
  that owns nothing it is the undefined dereference, whatever the serializer, and not
  a reported error; on one that owns \<open>x\<close> it is \<open>serialize\<close> on \<open>x\<close>.  For a value in
  which every \<open>unique_ptr\<close> owns an object the dereference of a null pointer is never
  reached.
\<close>

theorem null_unique_ptr:
  "serialize S (VBox p) w = (case p of None \<Rightarrow> Inl Null_dereference | Some x \<Rightarrow> serialize S x w)
   \<and> (non_null v \<longrightarrow> serialize S v w \<noteq> Inl Null_dereference)"
  using perform_all_failure [of S "spec_calls v" w Null_dereference]
  by (auto simp: serialize_performs split: option.splits)

theorem null_unique_ptr_witness:
  "non_null (VBox (Some (VU8 3)))
   \<and> serialize recorder (VBox (Some (VU8 3))) [] \<noteq> Inl Null_dereference
   \<and> serialize recorder (VBox None) [] = Inl Null_dereference"
  using null_unique_ptr [of recorder "Some (VU8 3)" "[]" "VBox (Some (VU8 3))"]
    null_unique_ptr [of recorder None "[]" "VBox (Some (VU8 3))"]
  by simp

section \<open>unique_ptr\<close>

text \<open>
  C9.  A \<open>unique_ptr\<close> is transparent.  Serializing a pointer that owns \<open>x\<close> is
  serializing \<open>x\<close>: the same calls on the same serializer, the same outcome.
  Deserializing a \<open>unique_ptr<T>\<close> is deserializing a \<open>T\<close>: the same failure, or the
  value decoded, owned by the pointer, and the deserializer in the same state.
\<close>

theorem unique_ptr_transparent:
  "serialize S (VBox (Some x)) w = serialize S x w
   \<and> deserialize ao lt D (TBox T) s =
       (case deserialize ao lt D T s of
          Inl e \<Rightarrow> Inl e
        | Inr (x, s') \<Rightarrow> Inr (VBox (Some x), s'))"
  by (simp add: bind_r_def return_r_def split: sum.splits)

section \<open>optional\<close>

text \<open>
  C4, as the code has it.  The tag is read with \<open>deserialize_u8\<close>.  Tag 0: the empty
  option, and the deserializer is in the state the read of the tag left it in.
  Tag 1: the inner value is decoded next, and its failure or its value, wrapped, is
  the result.  Any other tag: the string \<open>"invalid option tag"\<close> is thrown.
\<close>

theorem option_tag:
  "(deserialize_u8 D s = Inr (0, s') \<longrightarrow>
      deserialize ao lt D (TOption T) s = Inr (VOption None, s'))
   \<and> (deserialize_u8 D s = Inr (1, s') \<longrightarrow>
      deserialize ao lt D (TOption T) s =
        (case deserialize ao lt D T s' of
           Inl e \<Rightarrow> Inl e
         | Inr (x, s'') \<Rightarrow> Inr (VOption (Some x), s'')))
   \<and> (deserialize_u8 D s = Inr (tag, s') \<longrightarrow> tag \<noteq> 0 \<longrightarrow> tag \<noteq> 1 \<longrightarrow>
      deserialize ao lt D (TOption T) s = Inl (Thrown ''invalid option tag''))"
  by (simp add: bind_r_def return_r_def call_r_def throw_r_def split: sum.splits)

theorem option_tag_witness:
  "deserialize_u8 replayer [W_u8 0, W_u8 9] = Inr (0, [W_u8 9])
   \<and> deserialize Left_to_right less_u8 replayer (TOption TU8) [W_u8 0, W_u8 9]
       = Inr (VOption None, [W_u8 9])
   \<and> deserialize_u8 replayer [W_u8 1, W_u8 9] = Inr (1, [W_u8 9])
   \<and> deserialize Left_to_right less_u8 replayer (TOption TU8) [W_u8 1, W_u8 9]
       = Inr (VOption (Some (VU8 9)), [])
   \<and> deserialize_u8 replayer [W_u8 2, W_u8 9] = Inr (2, [W_u8 9])
   \<and> deserialize Left_to_right less_u8 replayer (TOption TU8) [W_u8 2, W_u8 9]
       = Inl (Thrown ''invalid option tag'')"
  using option_tag [of replayer "[W_u8 0, W_u8 9]" "[W_u8 9]" Left_to_right less_u8 TU8 0]
    option_tag [of replayer "[W_u8 1, W_u8 9]" "[W_u8 9]" Left_to_right less_u8 TU8 0]
    option_tag [of replayer "[W_u8 2, W_u8 9]" "[W_u8 9]" Left_to_right less_u8 TU8 2]
  by (simp add: replayer_def bind_r_def return_r_def call_r_def)

text \<open>
  C4, as the spec has it: the failure on another tag is the decode error "invalid
  option discriminant".  On tag 2 the code throws "invalid option tag".
\<close>

theorem option_tag_message:
  "deserialize Left_to_right less_u8 replayer (TOption TU8) [W_u8 2]
     = Inl (Thrown ''invalid option tag'')
   \<and> deserialize Left_to_right less_u8 replayer (TOption TU8) [W_u8 2]
     \<noteq> Inl (Thrown ''invalid option discriminant'')"
  by (simp add: replayer_def bind_r_def return_r_def call_r_def throw_r_def)

section \<open>variant\<close>

lemma alternative_of_nth:
  "distinct Types \<Longrightarrow> i < length Types \<Longrightarrow> alternative_of (Types ! i) Types = i"
proof (induction Types arbitrary: i)
  case Nil
  then show ?case by simp
next
  case (Cons U Us)
  show ?case
  proof (cases i)
    case 0
    then show ?thesis by simp
  next
    case (Suc j)
    with Cons.prems have "Us ! j \<in> set Us" "U \<notin> set Us" by auto
    then have "Us ! j \<noteq> U" by auto
    with Cons Suc show ?thesis by simp
  qed
qed

text \<open>
  C5, as the code has it.  The index is read with \<open>deserialize_variant_index\<close>.  For
  a variant of \<open>n\<close> pairwise distinct alternative types and an index \<open>i < n\<close>, the
  payload is decoded as alternative \<open>i\<close>'s type and the result is the variant holding
  alternative \<open>i\<close> (or the payload's failure).  For \<open>i \<ge> n\<close> the lookup
  \<open>cases.at(index)\<close> raises \<open>std::out_of_range\<close> and nothing more is read.
\<close>

theorem variant_index:
  "deserialize_variant_index D s = Inr (i, s') \<Longrightarrow>
   (i < length Types \<longrightarrow> distinct Types \<longrightarrow>
      deserialize ao lt D (TVariant Types) s =
        (case deserialize ao lt D (Types ! i) s' of
           Inl e \<Rightarrow> Inl e
         | Inr (x, s'') \<Rightarrow> Inr (VVariant i x, s'')))
   \<and> (length Types \<le> i \<longrightarrow>
      deserialize ao lt D (TVariant Types) s = Inl Std_out_of_range)"
  by (simp add: bind_r_def return_r_def call_r_def throw_r_def array_at_def make_case_def
      alternative_of_nth split: sum.splits)

theorem variant_index_witness:
  "deserialize_variant_index replayer [W_variant_index 1, W_u32 42] = Inr (1, [W_u32 42])
   \<and> 1 < length [TUnit, TU32] \<and> distinct [TUnit, TU32]
   \<and> deserialize Left_to_right less_u8 replayer (TVariant [TUnit, TU32])
        [W_variant_index 1, W_u32 42] = Inr (VVariant 1 (VU32 42), [])
   \<and> deserialize_variant_index replayer [W_variant_index 2, W_u32 42] = Inr (2, [W_u32 42])
   \<and> length [TUnit, TU32] \<le> 2
   \<and> deserialize Left_to_right less_u8 replayer (TVariant [TUnit, TU32])
        [W_variant_index 2, W_u32 42] = Inl Std_out_of_range"
  using variant_index [of replayer "[W_variant_index 1, W_u32 42]" 1 "[W_u32 42]"
      "[TUnit, TU32]" Left_to_right less_u8]
    variant_index [of replayer "[W_variant_index 2, W_u32 42]" 2 "[W_u32 42]"
      "[TUnit, TU32]" Left_to_right less_u8]
  by (simp add: replayer_def bind_r_def return_r_def call_r_def)

text \<open>
  C5, as the spec has it: the failure on an index out of range is the decode error
  "variant index out of range".  On index 2 of a variant of two alternatives the code
  fails with \<open>std::out_of_range\<close>, the exception of the standard library's array, and
  throws no string.
\<close>

theorem variant_index_failure:
  "deserialize Left_to_right less_u8 replayer (TVariant [TUnit, TU32]) [W_variant_index 2]
     = Inl Std_out_of_range
   \<and> deserialize Left_to_right less_u8 replayer (TVariant [TUnit, TU32]) [W_variant_index 2]
     \<noteq> Inl (Thrown ''variant index out of range'')"
  by (simp add: replayer_def bind_r_def return_r_def call_r_def throw_r_def array_at_def)

section \<open>tuple\<close>

lemma tuple_left_to_right:
  "deserialize Left_to_right lt D (TTuple Types) s =
     (case in_sequence (map (deserialize Left_to_right lt D) Types) s of
        Inl e \<Rightarrow> Inl e
      | Inr (xs, s') \<Rightarrow> Inr (VTuple xs, s'))"
  by (simp add: evaluate_arguments_def bind_r_def return_r_def split: sum.splits)

text \<open>
  C6.  The spec: the components of a tuple are decoded in declared order.  The
  components are arguments of one call of \<open>std::make_tuple\<close>, so the order is the
  compiler's.  With arguments evaluated from right to left, a
  \<open>std::tuple<uint8_t, uint8_t>\<close> read from the values 1 then 2 is \<open>(2, 1)\<close>: the second
  component was decoded first; and a \<open>std::tuple<uint8_t, uint16_t>\<close> read from what
  \<open>serialize\<close> wrote for \<open>(1, 2)\<close> asks the deserializer for the \<open>uint16_t\<close> first.
\<close>

theorem tuple_right_to_left:
  "deserialize Right_to_left less_u8 replayer (TTuple [TU8, TU8]) [W_u8 1, W_u8 2]
     = Inr (VTuple [VU8 2, VU8 1], [])
   \<and> serialize recorder (VTuple [VU8 1, VU16 2]) [] = Inr [W_u8 1, W_u16 2]
   \<and> deserialize Right_to_left less_u8 replayer (TTuple [TU8, TU16]) [W_u8 1, W_u16 2]
     = Inl (Propagated Mismatch)"
  by (simp add: replayer_def recorder_def bind_r_def return_r_def call_r_def call_w_def
      evaluate_arguments_def)

section \<open>vector\<close>

lemma vector_loop_in_sequence:
  "vector_loop d len i acc s =
     (case in_sequence (replicate (len - i) d) s of
        Inl e \<Rightarrow> Inl e
      | Inr (xs, s') \<Rightarrow> Inr (acc @ xs, s'))"
proof (induction "len - i" arbitrary: i acc s)
  case 0
  then show ?case
    by (simp add: vector_loop.simps return_r_def)
next
  case (Suc n)
  then have less: "i < len" and n: "n = len - Suc i"
    by auto
  from less have "len - i = Suc (len - Suc i)"
    by simp
  then have rep: "replicate (len - i) d = d # replicate (len - Suc i) d"
    by simp
  show ?case
    by (subst vector_loop.simps)
      (simp add: less rep Suc.hyps(1) [OF n] bind_r_def return_r_def
        split: sum.splits prod.splits)
qed

lemma in_sequence_length:
  "in_sequence ds s = Inr (xs, s') \<Longrightarrow> length xs = length ds"
  by (induction ds arbitrary: s xs)
    (auto simp: bind_r_def return_r_def split: sum.splits prod.splits)

lemma for_each_recorded:
  "(\<And>x w. x \<in> set xs \<Longrightarrow> f x w = Inr (w @ enc x))
   \<Longrightarrow> for_each f xs w = Inr (w @ concat (map enc xs))"
  by (induction xs arbitrary: w) auto

lemma in_sequence_replayed:
  "(\<And>x rest. x \<in> set xs \<Longrightarrow> d (enc x @ rest) = Inr (x, rest))
   \<Longrightarrow> in_sequence (replicate (length xs) d) (concat (map enc xs) @ rest) = Inr (xs, rest)"
  by (induction xs) (auto simp: bind_r_def return_r_def)

lemma deserialize_vector:
  "deserialize_len D s = Inr (k, s0) \<Longrightarrow>
   deserialize ao lt D (TVector T) s =
     (case in_sequence (replicate k (deserialize ao lt D T)) s0 of
        Inl e \<Rightarrow> Inl e
      | Inr (ys, s') \<Rightarrow> Inr (VVector ys, s'))"
  by (simp add: bind_r_def call_r_def return_r_def vector_loop_in_sequence
      split: sum.splits prod.splits)

text \<open>
  C7.  Length fidelity of a vector.
  \<^item> Serializing a vector \<open>xs\<close> on the recording serializer records \<open>serialize_len\<close>
    of \<open>length xs\<close>, then what each item records, in the order of \<open>xs\<close>.
  \<^item> Deserializing reads the length \<open>k\<close> with \<open>deserialize_len\<close>, then decodes an item
    \<open>k\<close> times, one after the other; the vector is the list of the items in the order
    read, of length \<open>k\<close>; a failure of an item is the failure of the whole.
  \<^item> For the length 0 the vector is empty and the deserializer is in the state the
    read of the length left it in.
  \<^item> On the replaying deserializer, the length and the items' recordings are
    consumed and what follows them is left.
\<close>

theorem vector_length_fidelity:
  "((\<forall>x\<in>set xs. \<forall>w. serialize recorder x w = Inr (w @ enc x)) \<longrightarrow>
      serialize recorder (VVector xs) w = Inr (w @ W_len (length xs) # concat (map enc xs)))
   \<and> (deserialize_len D s = Inr (k, s0) \<longrightarrow>
      deserialize ao lt D (TVector T) s =
        (case in_sequence (replicate k (deserialize ao lt D T)) s0 of
           Inl e \<Rightarrow> Inl e
         | Inr (ys, s') \<Rightarrow> Inr (VVector ys, s')))
   \<and> (deserialize_len D s = Inr (k, s0) \<longrightarrow>
      deserialize ao lt D (TVector T) s = Inr (y, s1) \<longrightarrow> (\<exists>ys. y = VVector ys \<and> length ys = k))
   \<and> (deserialize_len D s = Inr (0, s0) \<longrightarrow>
      deserialize ao lt D (TVector T) s = Inr (VVector [], s0))
   \<and> ((\<forall>x\<in>set xs. \<forall>rest. deserialize ao lt replayer T (enc x @ rest) = Inr (x, rest)) \<longrightarrow>
      deserialize ao lt replayer (TVector T) (W_len (length xs) # concat (map enc xs) @ rest)
        = Inr (VVector xs, rest))"
proof (intro conjI impI)
  assume elems: "\<forall>x\<in>set xs. \<forall>w. serialize recorder x w = Inr (w @ enc x)"
  have "for_each (serialize recorder) xs w' = Inr (w' @ concat (map enc xs))" for w'
    by (rule for_each_recorded) (simp add: elems)
  then show "serialize recorder (VVector xs) w = Inr (w @ W_len (length xs) # concat (map enc xs))"
    by (simp add: then_w_def call_w_def recorder_def)
next
  assume "deserialize_len D s = Inr (k, s0)"
  then show "deserialize ao lt D (TVector T) s =
        (case in_sequence (replicate k (deserialize ao lt D T)) s0 of
           Inl e \<Rightarrow> Inl e
         | Inr (ys, s') \<Rightarrow> Inr (VVector ys, s'))"
    by (rule deserialize_vector)
next
  assume len: "deserialize_len D s = Inr (k, s0)"
    and res: "deserialize ao lt D (TVector T) s = Inr (y, s1)"
  from res obtain ys
    where "in_sequence (replicate k (deserialize ao lt D T)) s0 = Inr (ys, s1)" "y = VVector ys"
    unfolding deserialize_vector [OF len] by (auto split: sum.splits prod.splits)
  then show "\<exists>ys. y = VVector ys \<and> length ys = k"
    by (auto dest: in_sequence_length)
next
  assume "deserialize_len D s = Inr (0, s0)"
  then show "deserialize ao lt D (TVector T) s = Inr (VVector [], s0)"
    by (simp add: deserialize_vector return_r_def del: deserialize.simps)
next
  assume elems: "\<forall>x\<in>set xs. \<forall>rest. deserialize ao lt replayer T (enc x @ rest) = Inr (x, rest)"
  have "in_sequence (replicate (length xs) (deserialize ao lt replayer T))
      (concat (map enc xs) @ rest) = Inr (xs, rest)"
    by (rule in_sequence_replayed) (simp add: elems)
  moreover have "deserialize_len replayer (W_len (length xs) # concat (map enc xs) @ rest)
      = Inr (length xs, concat (map enc xs) @ rest)"
    by (simp add: replayer_def)
  ultimately show "deserialize ao lt replayer (TVector T)
      (W_len (length xs) # concat (map enc xs) @ rest) = Inr (VVector xs, rest)"
    by (simp add: deserialize_vector del: deserialize.simps)
qed

theorem vector_length_fidelity_witness:
  "(\<forall>w. serialize recorder (VU8 1) w = Inr (w @ spec_calls (VU8 1)))
   \<and> (\<forall>w. serialize recorder (VU8 2) w = Inr (w @ spec_calls (VU8 2)))
   \<and> serialize recorder (VVector [VU8 1, VU8 2]) [] = Inr [W_len 2, W_u8 1, W_u8 2]
   \<and> deserialize_len replayer [W_len 2, W_u8 1, W_u8 2, W_u8 3] = Inr (2, [W_u8 1, W_u8 2, W_u8 3])
   \<and> deserialize Left_to_right less_u8 replayer (TVector TU8) [W_len 2, W_u8 1, W_u8 2, W_u8 3]
       = Inr (VVector [VU8 1, VU8 2], [W_u8 3])
   \<and> deserialize_len replayer [W_len 0, W_u8 3] = Inr (0, [W_u8 3])
   \<and> deserialize Left_to_right less_u8 replayer (TVector TU8) [W_len 0, W_u8 3]
       = Inr (VVector [], [W_u8 3])
   \<and> (\<forall>rest. deserialize Left_to_right less_u8 replayer TU8 (spec_calls (VU8 1) @ rest)
         = Inr (VU8 1, rest))
   \<and> (\<forall>rest. deserialize Left_to_right less_u8 replayer TU8 (spec_calls (VU8 2) @ rest)
         = Inr (VU8 2, rest))"
  using vector_length_fidelity [of "[VU8 1, VU8 2]" spec_calls "[]" replayer
      "[W_len 2, W_u8 1, W_u8 2, W_u8 3]" 2 "[W_u8 1, W_u8 2, W_u8 3]"
      Left_to_right less_u8 TU8 "VVector [VU8 1, VU8 2]" "[W_u8 3]" "[]"]
    vector_length_fidelity [of "[]" spec_calls "[]" replayer
      "[W_len 0, W_u8 3]" 0 "[W_u8 3]"
      Left_to_right less_u8 TU8 "VVector []" "[W_u8 3]" "[]"]
  by (simp add: replayer_def recorder_def bind_r_def call_r_def return_r_def then_w_def
      call_w_def vector_loop.simps)

section \<open>map\<close>

lemma map_loop_read_entries:
  "map_loop lt key_of value_of len i acc s =
     (case read_entries key_of value_of (len - i) s of
        Inl e \<Rightarrow> Inl e
      | Inr (es, s') \<Rightarrow> Inr (fold (map_insert lt) es acc, s'))"
proof (induction "len - i" arbitrary: i acc s)
  case 0
  then show ?case
    by (simp add: map_loop.simps return_r_def)
next
  case (Suc n)
  then have less: "i < len" and n: "n = len - Suc i"
    by auto
  from less have unroll: "len - i = Suc (len - Suc i)"
    by simp
  show ?case
    by (subst map_loop.simps)
      (simp add: less unroll Suc.hyps(1) [OF n] bind_r_def return_r_def
        split: sum.splits prod.splits)
qed

lemma strict_weak_order_onD:
  assumes "strict_weak_order_on A lt"
  shows "a \<in> A \<Longrightarrow> \<not> lt a a"
    and "a \<in> A \<Longrightarrow> b \<in> A \<Longrightarrow> c \<in> A \<Longrightarrow> lt a b \<Longrightarrow> lt b c \<Longrightarrow> lt a c"
  using assms unfolding strict_weak_order_on_def by blast+

lemma map_insert_entries:
  "x \<in> set (map_insert lt (k, v) m) \<Longrightarrow> x = (k, v) \<or> x \<in> set m"
  by (induction m) (auto split: if_splits)

lemma map_insert_sorted:
  assumes ord: "strict_weak_order_on A lt"
    and "k \<in> A" "fst ` set m \<subseteq> A" "sorted_wrt lt (map fst m)"
  shows "sorted_wrt lt (map fst (map_insert lt (k, v) m))
         \<and> set (map_insert lt (k, v) m) =
             (if \<exists>x\<in>set m. equivalent lt (fst x) k then set m else insert (k, v) (set m))"
  using assms(2-)
proof (induction m)
  case Nil
  then show ?case by simp
next
  case (Cons e m)
  obtain k' v' where e: "e = (k', v')"
    by (cases e)
  from Cons.prems e have k': "k' \<in> A" and sub: "fst ` set m \<subseteq> A"
    and above: "\<forall>x\<in>set m. lt k' (fst x)" and sorted: "sorted_wrt lt (map fst m)"
    by auto
  note IH = Cons.IH [OF \<open>k \<in> A\<close> sub sorted]
  show ?case
  proof (cases "lt k k'")
    case True
    have below: "\<forall>x\<in>set m. lt k (fst x)"
      using above sub k' \<open>k \<in> A\<close> True strict_weak_order_onD(2) [OF ord] by blast
    then have "\<not> (\<exists>x\<in>set (e # m). equivalent lt (fst x) k)"
      using True by (auto simp: e equivalent_def)
    then show ?thesis
      using True above below sorted by (auto simp: e)
  next
    case False
    show ?thesis
    proof (cases "lt k' k")
      case True
      have "\<forall>x\<in>set (map_insert lt (k, v) m). lt k' (fst x)"
        using above True by (auto dest!: map_insert_entries)
      moreover have "(\<exists>x\<in>set (e # m). equivalent lt (fst x) k)
          \<longleftrightarrow> (\<exists>x\<in>set m. equivalent lt (fst x) k)"
        using True by (auto simp: e equivalent_def)
      ultimately show ?thesis
        using IH \<open>\<not> lt k k'\<close> True by (auto simp: e)
    next
      case False
      with \<open>\<not> lt k k'\<close> have "equivalent lt (fst e) k"
        by (simp add: e equivalent_def)
      with Cons.prems \<open>\<not> lt k k'\<close> False show ?thesis
        by (auto simp: e)
    qed
  qed
qed

lemma sorted_keys_separate:
  assumes ord: "strict_weak_order_on A lt"
    and "fst ` set m \<subseteq> A" "sorted_wrt lt (map fst m)"
  shows "distinct (map fst m)
         \<and> (\<forall>x\<in>set m. \<forall>y\<in>set m. equivalent lt (fst x) (fst y) \<longrightarrow> x = y)"
  using assms(2-)
proof (induction m)
  case Nil
  then show ?case by simp
next
  case (Cons e m)
  then have "fst e \<in> A" and above: "\<forall>x\<in>set m. lt (fst e) (fst x)"
    by auto
  from above have "\<forall>x\<in>set m. fst x \<noteq> fst e \<and> \<not> equivalent lt (fst e) (fst x)
      \<and> \<not> equivalent lt (fst x) (fst e)"
    using strict_weak_order_onD(1) [OF ord \<open>fst e \<in> A\<close>] by (auto simp: equivalent_def)
  with Cons show ?case
    by auto
qed

lemma first_entries_seen:
  "set seen = set seen' \<Longrightarrow> first_entries lt seen es = first_entries lt seen' es"
proof (induction es arbitrary: seen seen')
  case Nil
  then show ?case by simp
next
  case (Cons e es)
  from Cons.prems have "first_entries lt (fst e # seen) es = first_entries lt (fst e # seen') es"
    by (intro Cons.IH) simp
  moreover from Cons.prems have "first_entries lt seen es = first_entries lt seen' es"
    by (rule Cons.IH)
  ultimately show ?case
    using Cons.prems by simp
qed

lemma first_entries_subset: "set (first_entries lt seen es) \<subseteq> set es"
  by (induction es arbitrary: seen) auto

lemma fold_map_insert_first:
  assumes ord: "strict_weak_order_on A lt"
  shows "fst ` set es \<subseteq> A \<Longrightarrow> fst ` set m \<subseteq> A \<Longrightarrow> sorted_wrt lt (map fst m)
    \<Longrightarrow> sorted_wrt lt (map fst (fold (map_insert lt) es m))
        \<and> set (fold (map_insert lt) es m) = set m \<union> set (first_entries lt (map fst m) es)"
proof (induction es arbitrary: m)
  case Nil
  then show ?case by simp
next
  case (Cons e es)
  obtain k v where e: "e = (k, v)"
    by (cases e)
  from Cons.prems e have k: "k \<in> A" and es: "fst ` set es \<subseteq> A"
    by auto
  let ?m = "map_insert lt (k, v) m"
  from map_insert_sorted [OF ord k Cons.prems(2,3), of v]
  have sorted: "sorted_wrt lt (map fst ?m)"
    and entries: "set ?m =
      (if \<exists>x\<in>set m. equivalent lt (fst x) k then set m else insert (k, v) (set m))"
    by auto
  have keys: "fst ` set ?m \<subseteq> A"
    using k Cons.prems(2) by (auto dest!: map_insert_entries)
  note IH = Cons.IH [OF es keys sorted]
  show ?case
  proof (cases "\<exists>x\<in>set m. equivalent lt (fst x) k")
    case True
    with entries have "set (map fst ?m) = set (map fst m)"
      by simp
    then have "first_entries lt (map fst ?m) es = first_entries lt (map fst m) es"
      by (rule first_entries_seen)
    with IH entries True show ?thesis
      by (auto simp: e)
  next
    case False
    with entries have "set (map fst ?m) = set (k # map fst m)"
      by simp
    then have "first_entries lt (map fst ?m) es = first_entries lt (k # map fst m) es"
      by (rule first_entries_seen)
    with IH entries False show ?thesis
      by (auto simp: e)
  qed
qed

lemma map_of_set_eq:
  "distinct (map fst xs) \<Longrightarrow> distinct (map fst ys) \<Longrightarrow> set xs = set ys \<Longrightarrow> map_of xs = map_of ys"
  by (simp add: map_of_inject_set)

lemma map_insert_map_of:
  assumes ord: "strict_weak_order_on A lt" and sep: "equivalent_keys_equal A lt"
    and k: "k \<in> A" and keys: "fst ` set m \<subseteq> A" and sorted: "sorted_wrt lt (map fst m)"
  shows "map_of (map_insert lt (k, v) m) =
           (if map_of m k = None then (map_of m)(k \<mapsto> v) else map_of m)"
proof -
  let ?m = "map_insert lt (k, v) m"
  from map_insert_sorted [OF ord k keys sorted, of v]
  have sorted': "sorted_wrt lt (map fst ?m)"
    and entries: "set ?m =
      (if \<exists>x\<in>set m. equivalent lt (fst x) k then set m else insert (k, v) (set m))"
    by auto
  have keys': "fst ` set ?m \<subseteq> A"
    using k keys by (auto dest!: map_insert_entries)
  from sorted_keys_separate [OF ord keys sorted] have d: "distinct (map fst m)"
    by simp
  from sorted_keys_separate [OF ord keys' sorted'] have d': "distinct (map fst ?m)"
    by simp
  have held: "(\<exists>x\<in>set m. equivalent lt (fst x) k) \<longleftrightarrow> k \<in> fst ` set m"
  proof
    assume "\<exists>x\<in>set m. equivalent lt (fst x) k"
    then obtain x where x: "x \<in> set m" "equivalent lt (fst x) k"
      by blast
    with keys k sep have "fst x = k"
      unfolding equivalent_keys_equal_def by blast
    with x show "k \<in> fst ` set m"
      by force
  next
    assume "k \<in> fst ` set m"
    then show "\<exists>x\<in>set m. equivalent lt (fst x) k"
      using strict_weak_order_onD(1) [OF ord k] by (auto simp: equivalent_def)
  qed
  show ?thesis
  proof (cases "k \<in> fst ` set m")
    case True
    with entries held have "set ?m = set m"
      by simp
    with d d' have "map_of ?m = map_of m"
      by (intro map_of_set_eq)
    with True show ?thesis
      by (simp add: map_of_eq_None_iff)
  next
    case False
    with entries held have "set ?m = set ((k, v) # m)"
      by simp
    moreover from False d have "distinct (map fst ((k, v) # m))"
      by simp
    ultimately have "map_of ?m = map_of ((k, v) # m)"
      using d' by (intro map_of_set_eq)
    with False show ?thesis
      by (simp add: map_of_eq_None_iff)
  qed
qed

lemma fold_map_insert:
  assumes ord: "strict_weak_order_on A lt" and sep: "equivalent_keys_equal A lt"
  shows "fst ` set es \<subseteq> A \<Longrightarrow> fst ` set m \<subseteq> A \<Longrightarrow> sorted_wrt lt (map fst m)
    \<Longrightarrow> map_of (fold (map_insert lt) es m) = map_of es ++ map_of m"
proof (induction es arbitrary: m)
  case Nil
  then show ?case by simp
next
  case (Cons e es)
  obtain k v where e: "e = (k, v)"
    by (cases e)
  from Cons.prems e have k: "k \<in> A" and es: "fst ` set es \<subseteq> A"
    by auto
  let ?m = "map_insert lt (k, v) m"
  from map_insert_sorted [OF ord k Cons.prems(2,3), of v]
  have sorted: "sorted_wrt lt (map fst ?m)"
    by simp
  have look: "map_of ?m = (if map_of m k = None then (map_of m)(k \<mapsto> v) else map_of m)"
    by (rule map_insert_map_of [OF ord sep k Cons.prems(2,3)])
  have keys: "fst ` set ?m \<subseteq> A"
    using k Cons.prems(2) by (auto dest!: map_insert_entries)
  have "map_of (fold (map_insert lt) es ?m) = map_of es ++ map_of ?m"
    by (rule Cons.IH [OF es keys sorted])
  also have "\<dots> = (map_of es)(k \<mapsto> v) ++ map_of m"
  proof (rule ext)
    fix x
    show "(map_of es ++ map_of ?m) x = ((map_of es)(k \<mapsto> v) ++ map_of m) x"
      by (auto simp: look map_add_def split: option.splits)
  qed
  finally show ?case
    by (simp add: e fun_upd_def)
qed

text \<open>
  C2, as the code has it.  A map whose input holds the length \<open>n\<close> and then the
  entries \<open>es\<close>, with keys in a strict weak order \<open>lt\<close>, is decoded without a failure
  whether or not keys repeat, after all \<open>n\<close> entries have been read.  The map decoded
  is sorted by key and holds exactly the entries of \<open>es\<close> that are the first with
  their key, one entry for each key: a later entry with an equivalent key is read
  and dropped.  Where equivalent keys are equal, every key is bound to the value of
  the first entry read with that key (\<open>map_of es\<close> is the first match in \<open>es\<close>).
\<close>

theorem map_first_entry_wins:
  assumes len: "deserialize_len D s = Inr (n, s0)"
    and entries: "read_entries (deserialize ao lt D K) (deserialize ao lt D V) n s0 = Inr (es, s')"
    and ord: "strict_weak_order_on (fst ` set es) lt"
  shows "\<exists>m. deserialize ao lt D (TMap K V) s = Inr (VMap m, s')
           \<and> sorted_wrt lt (map fst m)
           \<and> set m = set (first_entries lt [] es)
           \<and> (\<forall>x\<in>set m. \<forall>y\<in>set m. equivalent lt (fst x) (fst y) \<longrightarrow> x = y)
           \<and> (equivalent_keys_equal (fst ` set es) lt \<longrightarrow>
                distinct (map fst m) \<and> map_of m = map_of es)"
proof -
  let ?m = "fold (map_insert lt) es []"
  have result: "deserialize ao lt D (TMap K V) s = Inr (VMap ?m, s')"
    using len entries
    by (simp add: bind_r_def call_r_def return_r_def map_loop_read_entries)
  from fold_map_insert_first [OF ord, of es "[]"]
  have sorted: "sorted_wrt lt (map fst ?m)" and kept: "set ?m = set (first_entries lt [] es)"
    by auto
  from kept have keys: "fst ` set ?m \<subseteq> fst ` set es"
    using first_entries_subset [of lt "[]" es] by auto
  note one = sorted_keys_separate [OF ord keys sorted]
  have "map_of ?m = map_of es" if "equivalent_keys_equal (fst ` set es) lt"
    using fold_map_insert [OF ord that, of es "[]"] by simp
  with result sorted kept one show ?thesis
    by blast
qed

theorem map_first_entry_wins_witness:
  "deserialize_len replayer [W_len 3, W_u8 7, W_u8 1, W_u8 3, W_u8 5, W_u8 7, W_u8 2]
     = Inr (3, [W_u8 7, W_u8 1, W_u8 3, W_u8 5, W_u8 7, W_u8 2])
   \<and> read_entries (deserialize Left_to_right less_u8 replayer TU8)
        (deserialize Left_to_right less_u8 replayer TU8) 3
        [W_u8 7, W_u8 1, W_u8 3, W_u8 5, W_u8 7, W_u8 2]
     = Inr ([(VU8 7, VU8 1), (VU8 3, VU8 5), (VU8 7, VU8 2)], [])
   \<and> strict_weak_order_on (fst ` set [(VU8 7, VU8 1), (VU8 3, VU8 5), (VU8 7, VU8 2)]) less_u8
   \<and> equivalent_keys_equal (fst ` set [(VU8 7, VU8 1), (VU8 3, VU8 5), (VU8 7, VU8 2)]) less_u8
   \<and> first_entries less_u8 [] [(VU8 7, VU8 1), (VU8 3, VU8 5), (VU8 7, VU8 2)]
       = [(VU8 7, VU8 1), (VU8 3, VU8 5)]
   \<and> (\<exists>m. deserialize Left_to_right less_u8 replayer (TMap TU8 TU8)
              [W_len 3, W_u8 7, W_u8 1, W_u8 3, W_u8 5, W_u8 7, W_u8 2] = Inr (VMap m, [])
          \<and> m = [(VU8 3, VU8 5), (VU8 7, VU8 1)]
          \<and> sorted_wrt less_u8 (map fst m)
          \<and> set m = set (first_entries less_u8 [] [(VU8 7, VU8 1), (VU8 3, VU8 5), (VU8 7, VU8 2)])
          \<and> distinct (map fst m)
          \<and> map_of m = map_of [(VU8 7, VU8 1), (VU8 3, VU8 5), (VU8 7, VU8 2)]
          \<and> map_of m (VU8 7) = Some (VU8 1))"
proof -
  have len: "deserialize_len replayer [W_len 3, W_u8 7, W_u8 1, W_u8 3, W_u8 5, W_u8 7, W_u8 2]
     = Inr (3, [W_u8 7, W_u8 1, W_u8 3, W_u8 5, W_u8 7, W_u8 2])"
    by (simp add: replayer_def)
  have entries: "read_entries (deserialize Left_to_right less_u8 replayer TU8)
        (deserialize Left_to_right less_u8 replayer TU8) 3
        [W_u8 7, W_u8 1, W_u8 3, W_u8 5, W_u8 7, W_u8 2]
     = Inr ([(VU8 7, VU8 1), (VU8 3, VU8 5), (VU8 7, VU8 2)], [])"
    by (simp add: numeral_3_eq_3 replayer_def bind_r_def call_r_def return_r_def)
  have ord: "strict_weak_order_on
      (fst ` set [(VU8 7, VU8 1), (VU8 3, VU8 5), (VU8 7, VU8 2)]) less_u8"
    by (simp add: strict_weak_order_on_def equivalent_def)
  have sep: "equivalent_keys_equal
      (fst ` set [(VU8 7, VU8 1), (VU8 3, VU8 5), (VU8 7, VU8 2)]) less_u8"
    by (simp add: equivalent_keys_equal_def equivalent_def)
  have first: "first_entries less_u8 [] [(VU8 7, VU8 1), (VU8 3, VU8 5), (VU8 7, VU8 2)]
       = [(VU8 7, VU8 1), (VU8 3, VU8 5)]"
    by (simp add: equivalent_def)
  have run: "deserialize Left_to_right less_u8 replayer (TMap TU8 TU8)
      [W_len 3, W_u8 7, W_u8 1, W_u8 3, W_u8 5, W_u8 7, W_u8 2]
      = Inr (VMap [(VU8 3, VU8 5), (VU8 7, VU8 1)], [])"
    by (simp add: replayer_def bind_r_def call_r_def return_r_def map_loop.simps)
  from map_first_entry_wins [OF len entries ord] obtain m
    where m: "deserialize Left_to_right less_u8 replayer (TMap TU8 TU8)
        [W_len 3, W_u8 7, W_u8 1, W_u8 3, W_u8 5, W_u8 7, W_u8 2] = Inr (VMap m, [])"
      "sorted_wrt less_u8 (map fst m)"
      "set m = set (first_entries less_u8 [] [(VU8 7, VU8 1), (VU8 3, VU8 5), (VU8 7, VU8 2)])"
      "equivalent_keys_equal (fst ` set [(VU8 7, VU8 1), (VU8 3, VU8 5), (VU8 7, VU8 2)]) less_u8
        \<longrightarrow> distinct (map fst m)
          \<and> map_of m = map_of [(VU8 7, VU8 1), (VU8 3, VU8 5), (VU8 7, VU8 2)]"
    by blast
  from m(1) run have "m = [(VU8 3, VU8 5), (VU8 7, VU8 1)]"
    by simp
  with m sep len entries ord first show ?thesis
    by auto
qed

text \<open>
  C2, as the spec has it: of two entries with equal keys the later one is the one
  the decoded map holds.  The entries \<open>7 \<mapsto> 1\<close> then \<open>7 \<mapsto> 2\<close> decode to the map
  \<open>7 \<mapsto> 1\<close>.
\<close>

theorem map_duplicate_key_keeps_first:
  "deserialize Left_to_right less_u8 replayer (TMap TU8 TU8)
     [W_len 2, W_u8 7, W_u8 1, W_u8 7, W_u8 2] = Inr (VMap [(VU8 7, VU8 1)], [])
   \<and> map_of [(VU8 7, VU8 1)] (VU8 7) \<noteq> Some (VU8 2)"
  by (simp add: replayer_def bind_r_def call_r_def return_r_def map_loop.simps)

section \<open>Round trip\<close>

text \<open>
  What the recording serializer wrote for a value of type \<open>T\<close> is read back as that
  value by the replaying deserializer, which is left with what followed it, provided
  the compiler evaluates function arguments from left to right.  Values are compared
  as values: a \<open>float\<close> by its bits, a \<open>unique_ptr\<close> by what it owns.
\<close>

lemma array_loop_replayed:
  "(\<And>x rest. x \<in> set xs \<Longrightarrow> d (enc x @ rest) = Inr (x, rest))
   \<Longrightarrow> array_loop d (length xs) (concat (map enc xs) @ rest) = Inr (xs, rest)"
  by (induction xs) (auto simp: bind_r_def return_r_def)

lemma in_sequence_components:
  "list_all2 (\<lambda>x U. \<forall>rest. d U (enc x @ rest) = Inr (x, rest)) xs Types
   \<Longrightarrow> in_sequence (map d Types) (concat (map enc xs) @ rest) = Inr (xs, rest)"
  by (induction xs Types rule: list_all2_induct) (auto simp: bind_r_def return_r_def)

lemma read_entries_replayed:
  "(\<And>e rest. e \<in> set es \<Longrightarrow> key_of (enc (fst e) @ rest) = Inr (fst e, rest))
   \<Longrightarrow> (\<And>e rest. e \<in> set es \<Longrightarrow> value_of (enc (snd e) @ rest) = Inr (snd e, rest))
   \<Longrightarrow> read_entries key_of value_of (length es)
         (concat (map (\<lambda>e. enc (fst e) @ enc (snd e)) es) @ rest) = Inr (es, rest)"
  by (induction es) (auto simp: bind_r_def return_r_def)

lemma map_insert_last:
  "\<forall>a\<in>set acc. lt (fst a) k \<and> \<not> lt k (fst a) \<Longrightarrow> map_insert lt (k, v) acc = acc @ [(k, v)]"
  by (induction acc) auto

lemma fold_map_insert_sorted:
  "sorted_wrt (\<lambda>a b. lt a b \<and> \<not> lt b a) (map fst (acc @ es))
   \<Longrightarrow> fold (map_insert lt) es acc = acc @ es"
proof (induction es arbitrary: acc)
  case Nil
  then show ?case by simp
next
  case (Cons e es)
  obtain k v where e: "e = (k, v)"
    by (cases e)
  from Cons.prems have "\<forall>a\<in>set acc. lt (fst a) k \<and> \<not> lt k (fst a)"
    by (auto simp: e sorted_wrt_append)
  then have "map_insert lt e acc = acc @ [e]"
    unfolding e by (rule map_insert_last)
  moreover from Cons.prems have "fold (map_insert lt) es (acc @ [e]) = (acc @ [e]) @ es"
    by (intro Cons.IH) simp
  ultimately show ?case
    by simp
qed

lemma deserialize_spec_calls:
  "has_type lt v T \<Longrightarrow>
   deserialize Left_to_right lt replayer T (spec_calls v @ rest) = Inr (v, rest)"
proof (induction v arbitrary: T rest)
  case (VBox p)
  then obtain x U where "p = Some x" "T = TBox U" "has_type lt x U"
    by (cases p; cases T) auto
  with VBox.IH [of x U] show ?case
    by (simp add: bind_r_def return_r_def)
next
  case (VOption p)
  then obtain U where T: "T = TOption U"
    by (cases p; cases T) auto
  show ?case
  proof (cases p)
    case None
    then show ?thesis
      by (simp add: T replayer_def bind_r_def call_r_def return_r_def)
  next
    case (Some x)
    with VOption.prems T have "has_type lt x U"
      by simp
    with VOption.IH [of x U] Some show ?thesis
      by (simp add: T replayer_def bind_r_def call_r_def return_r_def)
  qed
next
  case (VVector xs)
  then obtain U where T: "T = TVector U" and items: "\<forall>x\<in>set xs. has_type lt x U"
    by (cases T) (auto simp: list_all_iff)
  have "in_sequence (replicate (length xs) (deserialize Left_to_right lt replayer U))
      (concat (map spec_calls xs) @ rest) = Inr (xs, rest)"
    by (rule in_sequence_replayed) (simp add: VVector.IH items)
  moreover have "deserialize_len replayer (W_len (length xs) # concat (map spec_calls xs) @ rest)
      = Inr (length xs, concat (map spec_calls xs) @ rest)"
    by (simp add: replayer_def)
  ultimately show ?case
    by (simp add: T deserialize_vector del: deserialize.simps)
next
  case (VArray xs)
  then obtain U N where T: "T = TArray U N" and N: "N = length xs"
    and items: "\<forall>x\<in>set xs. has_type lt x U"
    by (cases T) (auto simp: list_all_iff)
  have "array_loop (deserialize Left_to_right lt replayer U) (length xs)
      (concat (map spec_calls xs) @ rest) = Inr (xs, rest)"
    by (rule array_loop_replayed) (simp add: VArray.IH items)
  then show ?case
    by (simp add: T N bind_r_def return_r_def)
next
  case (VMap es)
  then obtain K V where T: "T = TMap K V"
    and keys: "\<forall>e\<in>set es. has_type lt (fst e) K"
    and vals: "\<forall>e\<in>set es. has_type lt (snd e) V"
    and sorted: "sorted_wrt (\<lambda>a b. lt a b \<and> \<not> lt b a) (map fst es)"
    by (cases T) (auto simp: list_all_iff)
  let ?body = "concat (map (\<lambda>e. spec_calls (fst e) @ spec_calls (snd e)) es) @ rest"
  have "read_entries (deserialize Left_to_right lt replayer K)
      (deserialize Left_to_right lt replayer V) (length es) ?body = Inr (es, rest)"
  proof (rule read_entries_replayed)
    fix e r assume e: "e \<in> set es"
    obtain k v where kv: "e = (k, v)"
      by (cases e)
    from e keys have "has_type lt (fst e) K"
      by blast
    with VMap.IH(1) [of e "fst e" K r] e
    show "deserialize Left_to_right lt replayer K (spec_calls (fst e) @ r) = Inr (fst e, r)"
      by (simp add: kv)
    from e vals have "has_type lt (snd e) V"
      by blast
    with VMap.IH(2) [of e "snd e" V r] e
    show "deserialize Left_to_right lt replayer V (spec_calls (snd e) @ r) = Inr (snd e, r)"
      by (simp add: kv)
  qed
  moreover have "fold (map_insert lt) es [] = es"
    using fold_map_insert_sorted [of lt "[]" es] sorted by simp
  ultimately show ?case
    by (simp add: T replayer_def bind_r_def call_r_def return_r_def map_loop_read_entries)
next
  case (VTuple xs)
  then obtain Types where T: "T = TTuple Types"
    and comps: "list_all2 (has_type lt) xs Types"
    by (cases T) auto
  from comps have "list_all2
      (\<lambda>x U. \<forall>rest. deserialize Left_to_right lt replayer U (spec_calls x @ rest) = Inr (x, rest))
      xs Types"
    by (rule list.rel_mono_strong) (simp add: VTuple.IH)
  then have "in_sequence (map (deserialize Left_to_right lt replayer) Types)
      (concat (map spec_calls xs) @ rest) = Inr (xs, rest)"
    by (rule in_sequence_components)
  then show ?case
    by (simp add: T tuple_left_to_right del: deserialize.simps)
next
  case (VVariant i x)
  then obtain Types where T: "T = TVariant Types" and i: "i < length Types"
    and distinct: "distinct Types" and payload: "has_type lt x (Types ! i)"
    by (cases T) auto
  from VVariant.IH [OF payload] i distinct show ?case
    by (simp add: T replayer_def bind_r_def call_r_def return_r_def array_at_def make_case_def
        alternative_of_nth)
qed (auto simp: replayer_def bind_r_def call_r_def return_r_def)

lemma round_trip_left_to_right:
  assumes "has_type lt v T"
  shows "\<exists>cs. serialize recorder v [] = Inr cs
         \<and> deserialize Left_to_right lt replayer T cs = Inr (v, [])"
proof -
  from assms have "non_null v"
    by (rule has_type_non_null)
  then have "serialize recorder v [] = Inr (spec_calls v)"
    by (simp add: serialize_performs perform_all_recorder)
  moreover from deserialize_spec_calls [OF assms, of "[]"]
  have "deserialize Left_to_right lt replayer T (spec_calls v) = Inr (v, [])"
    by simp
  ultimately show ?thesis
    by blast
qed

text \<open>
  C3.  The spec: for every type and every value of it, deserializing what
  serializing the value wrote gives back the value.  With arguments evaluated from
  right to left, the order the tuple decoder leaves open, the tuple \<open>(1, 2)\<close> of two
  \<open>uint8_t\<close> is written as 1 then 2 and read back as \<open>(2, 1)\<close>.
\<close>

theorem round_trip_right_to_left:
  "has_type less_u8 (VTuple [VU8 1, VU8 2]) (TTuple [TU8, TU8])
   \<and> serialize recorder (VTuple [VU8 1, VU8 2]) [] = Inr [W_u8 1, W_u8 2]
   \<and> deserialize Right_to_left less_u8 replayer (TTuple [TU8, TU8]) [W_u8 1, W_u8 2]
       = Inr (VTuple [VU8 2, VU8 1], [])
   \<and> VTuple [VU8 2, VU8 1] \<noteq> VTuple [VU8 1, VU8 2]"
  by (simp add: replayer_def recorder_def bind_r_def return_r_def call_r_def call_w_def
      evaluate_arguments_def)

end
